theory Spec2Isabelle
  imports Main "HOL-Library.Multiset"
begin

section \<open>Data model (types.ts)\<close>

text \<open>
  \<^verbatim>\<open>interface User { username; email; preferredLanguage; friends; friendRequests }\<close>
  All fields are strings or arrays of strings.
\<close>

record user =
  username :: string
  email :: string
  preferredLanguage :: string
  friends :: "string list"
  friendRequests :: "string list"

text \<open>
  \<^verbatim>\<open>interface Message { id; sender; senderEmail; senderLanguage; text; timestamp }\<close>
  The fields \<^verbatim>\<open>id\<close> and \<^verbatim>\<open>text\<close> are written \<open>id_msg\<close> and \<open>text_msg\<close>.
  A timestamp is an integer number of milliseconds.
\<close>

record message =
  id_msg :: string
  sender :: string
  senderEmail :: string
  senderLanguage :: string
  text_msg :: string
  timestamp :: int

text \<open>
  \<^verbatim>\<open>interface TranslatedMessage extends Message { translatedText?: string; isTranslating?: boolean }\<close>
  An optional field that is absent is \<open>None\<close>.
\<close>

record tmsg = message +
  translatedText :: "string option"
  isTranslating :: "bool option"

section \<open>Sync adapter (services/chatSync.ts)\<close>

text \<open>
  A row of the table \<^verbatim>\<open>messages\<close>, with the columns the adapter reads. The column
  \<^verbatim>\<open>created_at\<close> is kept as the number of milliseconds that
  \<^verbatim>\<open>new Date(created_at).getTime()\<close> yields, so ordering by the column and ordering by
  the converted timestamp agree.
\<close>

record db_row =
  id_row :: string
  room_id :: string
  sender_email :: string
  sender_username :: string
  sender_language :: string
  text_row :: string
  created_at :: int

datatype backend_error = BackendError (err_message: "string option")

text \<open>
  The remote store: the rows of the table and, when the store cannot serve requests, the
  error it answers with.
\<close>

record backend =
  table_rows :: "db_row list"
  fault :: "backend_error option"

text \<open>
  The query built in \<^verbatim>\<open>fetchHistory\<close>:
  \<^verbatim>\<open>.from('messages').select('*').eq('room_id', roomId).order('created_at', { ascending: true }).limit(50)\<close>
  It answers with a pair \<^verbatim>\<open>{ data, error }\<close>. Rows with equal creation time keep the
  order of the table.
\<close>

definition messages_query :: "backend \<Rightarrow> string \<Rightarrow> db_row list option \<times> backend_error option" where
  "messages_query be roomId =
     (case fault be of
        Some e \<Rightarrow> (None, Some e)
      | None \<Rightarrow>
          (Some (take 50 (sort_key created_at (filter (\<lambda>r. room_id r = roomId) (table_rows be)))),
           None))"

text \<open>The conversion of a row into a \<^verbatim>\<open>Message\<close> (the body of the \<^verbatim>\<open>map\<close> callback).\<close>

definition to_message :: "db_row \<Rightarrow> message" where
  "to_message dbMsg =
     \<lparr> id_msg = id_row dbMsg,
       sender = sender_username dbMsg,
       senderEmail = sender_email dbMsg,
       senderLanguage = sender_language dbMsg,
       text_msg = text_row dbMsg,
       timestamp = created_at dbMsg \<rparr>"

text \<open>
  \<^verbatim>\<open>fetchHistory\<close>: rethrow the error of the query when there is one, otherwise
  convert \<^verbatim>\<open>data || []\<close>.
\<close>

definition fetchHistory :: "backend \<Rightarrow> string \<Rightarrow> backend_error + message list" where
  "fetchHistory be roomId =
     (case messages_query be roomId of
        (data, Some e) \<Rightarrow> Inl e
      | (data, None) \<Rightarrow> Inr (map to_message (case data of None \<Rightarrow> [] | Some d \<Rightarrow> d)))"

text \<open>A room of 51 rows created at the instants 1 to 51, for concrete evaluation.\<close>

definition sample_row :: "nat \<Rightarrow> db_row" where
  "sample_row n =
     \<lparr> id_row = replicate n CHR ''i'', room_id = ''r'', sender_email = ''a@x'',
       sender_username = ''a'', sender_language = ''en'', text_row = ''t'',
       created_at = int n \<rparr>"

definition sample_message :: "nat \<Rightarrow> message" where
  "sample_message n = to_message (sample_row n)"

definition sample_backend :: backend where
  "sample_backend = \<lparr> table_rows = map sample_row [1..<52], fault = None \<rparr>"

section \<open>Reconciliation and translation pipeline (App.tsx)\<close>

subsection \<open>JavaScript helpers\<close>

text \<open>\<^verbatim>\<open>s.startsWith('temp-')\<close>.\<close>

definition startsWith_temp :: "string \<Rightarrow> bool" where
  "startsWith_temp s = (take 5 s = ''temp-'')"

text \<open>\<^verbatim>\<open>Array.prototype.findIndex\<close>: the first index whose element satisfies the
  predicate; \<open>None\<close> stands for the result \<^verbatim>\<open>-1\<close>.\<close>

fun findIndex :: "('a \<Rightarrow> bool) \<Rightarrow> 'a list \<Rightarrow> nat option" where
  "findIndex P [] = None"
| "findIndex P (x # xs) = (if P x then Some 0 else map_option Suc (findIndex P xs))"

text \<open>
  \<^verbatim>\<open>Map.prototype.set\<close> on a map that iterates in insertion order: a key already
  present keeps its position and takes the new value, a new key goes to the end.
\<close>

fun map_set :: "('k \<times> 'v) list \<Rightarrow> 'k \<Rightarrow> 'v \<Rightarrow> ('k \<times> 'v) list" where
  "map_set [] k v = [(k, v)]"
| "map_set ((k', v') # kvs) k v =
     (if k' = k then (k, v) # kvs else (k', v') # map_set kvs k v)"

text \<open>Truthiness of an optional string: \<^verbatim>\<open>undefined\<close> and \<^verbatim>\<open>""\<close> are falsy.\<close>

definition truthy :: "string option \<Rightarrow> bool" where
  "truthy s = (case s of None \<Rightarrow> False | Some t \<Rightarrow> t \<noteq> [])"

text \<open>
  \<^verbatim>\<open>String.prototype.trim\<close>. Characters are the code units below 256; among them the
  white space and line terminators of JavaScript are 9 to 13, 32 and 160.
\<close>

definition is_space :: "char \<Rightarrow> bool" where
  "is_space c = (of_char c \<in> {9, 10, 11, 12, 13, 32, 160 :: nat})"

definition trim :: "string \<Rightarrow> string" where
  "trim s = rev (dropWhile is_space (rev (dropWhile is_space s)))"

text \<open>The decimal numeral of a natural number, as a template literal prints it.\<close>

definition digit_char :: "nat \<Rightarrow> char" where
  "digit_char d = char_of (48 + d)"

fun string_of_nat :: "nat \<Rightarrow> string" where
  "string_of_nat n =
     (if n < 10 then [digit_char n] else string_of_nat (n div 10) @ [digit_char (n mod 10)])"

declare string_of_nat.simps [simp del]

subsection \<open>Admission from the live channel: \<^verbatim>\<open>processMessage\<close>\<close>

text \<open>
  \<^verbatim>\<open>{ ...msg, isTranslating: msg.senderLanguage !== user.preferredLanguage
          && msg.senderEmail !== user.email }\<close>
  The message handed over by the adapter has the six fields of \<^verbatim>\<open>Message\<close> only.
\<close>

definition newMessage :: "user \<Rightarrow> message \<Rightarrow> tmsg" where
  "newMessage usr msg =
     \<lparr> id_msg = id_msg msg, sender = sender msg, senderEmail = senderEmail msg,
       senderLanguage = senderLanguage msg, text_msg = text_msg msg,
       timestamp = timestamp msg,
       translatedText = None,
       isTranslating =
         Some (senderLanguage msg \<noteq> preferredLanguage usr \<and> senderEmail msg \<noteq> email usr) \<rparr>"

text \<open>The predicate of the \<^verbatim>\<open>findIndex\<close> call.\<close>

definition tempMatch :: "message \<Rightarrow> tmsg \<Rightarrow> bool" where
  "tempMatch msg m =
     (startsWith_temp (id_msg m) \<and> senderEmail m = senderEmail msg \<and> text_msg m = text_msg msg)"

text \<open>
  \<^verbatim>\<open>processMessage\<close>, as a function from the previous list to the next one. The first
  argument is \<^verbatim>\<open>userRef.current\<close>; without a user nothing is set. The sort of
  JavaScript is stable, as \<open>sort_key\<close> is.
\<close>

definition processMessage :: "user option \<Rightarrow> message \<Rightarrow> tmsg list \<Rightarrow> tmsg list" where
  "processMessage userRef msg prev =
     (case userRef of
        None \<Rightarrow> prev
      | Some usr \<Rightarrow>
          if list_ex (\<lambda>m. id_msg m = id_msg msg) prev then prev
          else
            let tempMatchIdx = findIndex (tempMatch msg) prev;
                newList = (case tempMatchIdx of
                             Some i \<Rightarrow> prev[i := newMessage usr msg]
                           | None \<Rightarrow> prev @ [newMessage usr msg])
            in sort_key timestamp newList)"

subsection \<open>Admission from history: the update in \<^verbatim>\<open>initRoom\<close>\<close>

text \<open>\<^verbatim>\<open>m as TranslatedMessage\<close>: a cast, which adds no field.\<close>

definition as_TranslatedMessage :: "message \<Rightarrow> tmsg" where
  "as_TranslatedMessage m =
     \<lparr> id_msg = id_msg m, sender = sender m, senderEmail = senderEmail m,
       senderLanguage = senderLanguage m, text_msg = text_msg m, timestamp = timestamp m,
       translatedText = None, isTranslating = None \<rparr>"

text \<open>
  \<^verbatim>\<open>const unique = new Map(); [...history, ...prev].forEach(m => unique.set(m.id, m));
  return Array.from(unique.values()).sort((a, b) => a.timestamp - b.timestamp);\<close>
\<close>

definition unique_of :: "tmsg list \<Rightarrow> (string \<times> tmsg) list" where
  "unique_of ms = foldl (\<lambda>unique m. map_set unique (id_msg m) m) [] ms"

definition initRoom_merge :: "message list \<Rightarrow> tmsg list \<Rightarrow> tmsg list" where
  "initRoom_merge history prev =
     (let unique = unique_of (map as_TranslatedMessage history @ prev)
      in sort_key timestamp (map snd unique))"

subsection \<open>Optimistic send: \<^verbatim>\<open>sendMessage\<close>\<close>

text \<open>\<^verbatim>\<open>Date.now()\<close> is read twice: for the temporary id and for the timestamp.\<close>

definition tempId_of :: "nat \<Rightarrow> string" where
  "tempId_of now = ''temp-'' @ string_of_nat now"

definition optimisticMessage :: "user \<Rightarrow> string \<Rightarrow> nat \<Rightarrow> nat \<Rightarrow> tmsg" where
  "optimisticMessage usr textToSubmit now1 now2 =
     \<lparr> id_msg = tempId_of now1, sender = username usr, senderEmail = email usr,
       senderLanguage = preferredLanguage usr, text_msg = textToSubmit,
       timestamp = int now2,
       translatedText = None, isTranslating = Some False \<rparr>"

subsection \<open>Translation: \<^verbatim>\<open>translateText\<close> and \<^verbatim>\<open>doTranslation\<close>\<close>

text \<open>What the call of the translation gateway does: it throws, or it answers with an
  optional text.\<close>

datatype gateway_reply = GatewayThrows | GatewayText "string option"

text \<open>
  \<^verbatim>\<open>translateText\<close> (services/geminiService.ts): throws when the API key is missing;
  an error of the gateway is caught and the original text returned; otherwise
  \<^verbatim>\<open>response.text?.trim() || text\<close>.
\<close>

definition translateText :: "bool \<Rightarrow> gateway_reply \<Rightarrow> string \<Rightarrow> string + string" where
  "translateText has_api_key reply txt =
     (if \<not> has_api_key then Inl ''API key is missing''
      else case reply of
             GatewayThrows \<Rightarrow> Inr txt
           | GatewayText t \<Rightarrow>
               (let r = map_option trim t in if truthy r then Inr (the r) else Inr txt))"

text \<open>The candidate of the translation effect:
  \<^verbatim>\<open>messages.find(m => m.isTranslating && !m.translatedText)\<close>.\<close>

definition untranslated_of :: "tmsg list \<Rightarrow> tmsg option" where
  "untranslated_of msgs =
     find (\<lambda>m. isTranslating m = Some True \<and> \<not> truthy (translatedText m)) msgs"

text \<open>
  The two updates of \<^verbatim>\<open>doTranslation\<close>, after \<^verbatim>\<open>translateText\<close> has settled
  with \<open>Inr translated\<close> or thrown (\<open>Inl\<close>).
\<close>

definition doTranslation :: "string + string \<Rightarrow> tmsg \<Rightarrow> tmsg list \<Rightarrow> tmsg list" where
  "doTranslation outcome untranslated prev =
     (case outcome of
        Inr translated \<Rightarrow>
          map (\<lambda>m. if id_msg m = id_msg untranslated
                   then m\<lparr> translatedText := Some translated, isTranslating := Some False \<rparr>
                   else m) prev
      | Inl err \<Rightarrow>
          map (\<lambda>m. if id_msg m = id_msg untranslated
                   then m\<lparr> isTranslating := Some False,
                          translatedText := Some (text_msg untranslated) \<rparr>
                   else m) prev)"

subsection \<open>The component state and its event handlers\<close>

text \<open>\<^verbatim>\<open>interface ChatRoom { id; name; isDirect? }\<close>.\<close>

record chatRoom =
  id_room :: string
  name_room :: string
  isDirect :: "bool option"

text \<open>
  The state variables of \<^verbatim>\<open>App\<close> that the pipeline reads and writes, and the two
  kinds of pending promises: \<open>translating\<close> holds, for every call of
  \<^verbatim>\<open>doTranslation\<close> still waiting for \<^verbatim>\<open>translateText\<close>, the message
  \<^verbatim>\<open>untranslated\<close> captured by it; \<open>sending\<close> holds, for every call of
  \<^verbatim>\<open>sendMessage\<close> still waiting for \<^verbatim>\<open>chatSync.sendMessage\<close>, the captured
  \<^verbatim>\<open>tempId\<close> and \<^verbatim>\<open>textToSubmit\<close>.
\<close>

record app_state =
  messages :: "tmsg list"
  isHistoryLoading :: bool
  inputText :: string
  error :: "string option"
  translating :: "tmsg list"
  sending :: "(string \<times> string) list"

text \<open>
  The translation effect, \<^verbatim>\<open>useEffect(..., [messages, currentUser])\<close>: when there is
  a candidate and a user, \<^verbatim>\<open>doTranslation()\<close> is called and starts one request.
\<close>

definition translation_effect :: "user option \<Rightarrow> app_state \<Rightarrow> app_state" where
  "translation_effect currentUser st =
     (case untranslated_of (messages st) of
        Some untranslated \<Rightarrow>
          (if currentUser \<noteq> None
           then st\<lparr> translating := translating st @ [untranslated] \<rparr>
           else st)
      | None \<Rightarrow> st)"

text \<open>
  \<^verbatim>\<open>setMessages\<close> with a new array: the array is stored and, its dependency
  \<^verbatim>\<open>messages\<close> having changed, the translation effect runs after the render.
  Every callback is taken to be rendered on its own: the updates of two callbacks are
  not batched into one render.
\<close>

definition setMessages :: "user option \<Rightarrow> tmsg list \<Rightarrow> app_state \<Rightarrow> app_state" where
  "setMessages currentUser new st = translation_effect currentUser (st\<lparr> messages := new \<rparr>)"

text \<open>
  A message of the live channel reaches \<^verbatim>\<open>processMessage\<close>. Without a user, or when
  the id is already in the list, the updater returns \<^verbatim>\<open>prev\<close> itself: the state
  is the same array and no effect runs.
\<close>

definition processMessage_event :: "user option \<Rightarrow> message \<Rightarrow> app_state \<Rightarrow> app_state" where
  "processMessage_event userRef msg st =
     (if userRef = None \<or> list_ex (\<lambda>m. id_msg m = id_msg msg) (messages st) then st
      else setMessages userRef (processMessage userRef msg (messages st)) st)"

text \<open>\<^verbatim>\<open>err.message || dflt\<close>.\<close>

definition message_or :: "backend_error \<Rightarrow> string \<Rightarrow> string" where
  "message_or err dflt = (if truthy (err_message err) then the (err_message err) else dflt)"

text \<open>
  \<^verbatim>\<open>initRoom\<close> after \<^verbatim>\<open>await chatSync.fetchHistory(...)\<close> has settled, the
  component still mounted: the merge on success, the error state on failure, and
  \<^verbatim>\<open>setIsHistoryLoading(false)\<close> in both cases.
\<close>

definition initRoom_settled ::
  "user option \<Rightarrow> backend_error + message list \<Rightarrow> app_state \<Rightarrow> app_state" where
  "initRoom_settled currentUser result st =
     (case result of
        Inr history \<Rightarrow>
          (setMessages currentUser (initRoom_merge history (messages st)) st)
            \<lparr> isHistoryLoading := False \<rparr>
      | Inl err \<Rightarrow>
          st\<lparr> error := Some (''Sync Error: '' @ message_or err ''Failed to load messages.''),
              isHistoryLoading := False \<rparr>)"

text \<open>
  \<^verbatim>\<open>sendMessage\<close> up to its \<^verbatim>\<open>await\<close>: the guard, the reset of draft and error,
  the optimistic message appended, the request to persist started.
\<close>

definition sendMessage_submit ::
  "user option \<Rightarrow> chatRoom option \<Rightarrow> nat \<Rightarrow> nat \<Rightarrow> app_state \<Rightarrow> app_state" where
  "sendMessage_submit currentUser currentRoom now1 now2 st =
     (case (currentUser, currentRoom) of
        (Some usr, Some room) \<Rightarrow>
          if trim (inputText st) = [] then st
          else
            let textToSubmit = inputText st;
                tempId = tempId_of now1
            in setMessages currentUser
                 (messages st @ [optimisticMessage usr textToSubmit now1 now2])
                 (st\<lparr> inputText := [], error := None,
                      sending := sending st @ [(tempId, textToSubmit)] \<rparr>)
      | _ \<Rightarrow> st)"

text \<open>The \<^verbatim>\<open>catch\<close> block of \<^verbatim>\<open>sendMessage\<close>.\<close>

definition sendMessage_catch ::
  "user option \<Rightarrow> string \<Rightarrow> string \<Rightarrow> backend_error \<Rightarrow> app_state \<Rightarrow> app_state" where
  "sendMessage_catch currentUser tempId textToSubmit err st =
     (setMessages currentUser (filter (\<lambda>m. id_msg m \<noteq> tempId) (messages st)) st)
       \<lparr> error := Some (''Send Failed: '' @ message_or err ''Unknown error''),
         inputText := textToSubmit \<rparr>"

text \<open>\<^verbatim>\<open>doTranslation\<close> after \<^verbatim>\<open>translateText\<close> has settled.\<close>

definition doTranslation_settled ::
  "user option \<Rightarrow> bool \<Rightarrow> gateway_reply \<Rightarrow> tmsg \<Rightarrow> app_state \<Rightarrow> app_state" where
  "doTranslation_settled currentUser has_api_key reply untranslated st =
     setMessages currentUser
       (doTranslation (translateText has_api_key reply (text_msg untranslated))
          untranslated (messages st)) st"

subsection \<open>Executions\<close>

text \<open>
  The callbacks that change the pipeline while a user is in a room, each applied
  atomically. A pending promise is named by its position in \<open>translating\<close> or
  \<open>sending\<close>.
\<close>

datatype event =
    HistorySettled "backend_error + message list"
  | LiveMessage message
  | InputTyped string
  | SendSubmitted nat nat
  | SendResolved nat
  | SendRejected nat backend_error
  | TranslationSettled nat bool gateway_reply

definition remove_nth :: "nat \<Rightarrow> 'a list \<Rightarrow> 'a list" where
  "remove_nth i xs = take i xs @ drop (Suc i) xs"

fun step :: "user \<Rightarrow> chatRoom \<Rightarrow> event \<Rightarrow> app_state \<Rightarrow> app_state" where
  "step usr room (HistorySettled result) st = initRoom_settled (Some usr) result st"
| "step usr room (LiveMessage msg) st = processMessage_event (Some usr) msg st"
| "step usr room (InputTyped s) st = st\<lparr> inputText := s \<rparr>"
| "step usr room (SendSubmitted now1 now2) st =
     sendMessage_submit (Some usr) (Some room) now1 now2 st"
| "step usr room (SendResolved i) st =
     (if i < length (sending st) then st\<lparr> sending := remove_nth i (sending st) \<rparr> else st)"
| "step usr room (SendRejected i err) st =
     (if i < length (sending st)
      then sendMessage_catch (Some usr) (fst (sending st ! i)) (snd (sending st ! i)) err
             (st\<lparr> sending := remove_nth i (sending st) \<rparr>)
      else st)"
| "step usr room (TranslationSettled i has_api_key reply) st =
     (if i < length (translating st)
      then doTranslation_settled (Some usr) has_api_key reply (translating st ! i)
             (st\<lparr> translating := remove_nth i (translating st) \<rparr>)
      else st)"

text \<open>The state on entering a room (\<^verbatim>\<open>setIsHistoryLoading(true); setMessages([]);
  setError(null)\<close>), with an empty draft and nothing pending.\<close>

definition room_entered :: app_state where
  "room_entered =
     \<lparr> messages = [], isHistoryLoading = True, inputText = [], error = None,
       translating = [], sending = [] \<rparr>"

definition run :: "user \<Rightarrow> chatRoom \<Rightarrow> event list \<Rightarrow> app_state \<Rightarrow> app_state" where
  "run usr room evs st = foldl (\<lambda>s ev. step usr room ev s) st evs"

text \<open>The two admissions, and the ids an admission brings.\<close>

fun is_admission :: "event \<Rightarrow> bool" where
  "is_admission (HistorySettled result) = True"
| "is_admission (LiveMessage msg) = True"
| "is_admission ev = False"

fun admitted_ids :: "event \<Rightarrow> string list" where
  "admitted_ids (HistorySettled (Inr history)) = map id_msg history"
| "admitted_ids (LiveMessage msg) = [id_msg msg]"
| "admitted_ids ev = []"

subsection \<open>Concrete inputs\<close>

definition viewer :: user where
  "viewer = \<lparr> username = ''me'', email = ''me@x'', preferredLanguage = ''en'',
              friends = [], friendRequests = [] \<rparr>"

definition lobby :: chatRoom where
  "lobby = \<lparr> id_room = ''r'', name_room = ''Lobby'', isDirect = None \<rparr>"

definition hola :: message where
  "hola = \<lparr> id_msg = ''1'', sender = ''ana'', senderEmail = ''ana@x'', senderLanguage = ''es'',
            text_msg = ''hola'', timestamp = 100 \<rparr>"

definition adios :: message where
  "adios = \<lparr> id_msg = ''2'', sender = ''ana'', senderEmail = ''ana@x'', senderLanguage = ''es'',
             text_msg = ''adios'', timestamp = 200 \<rparr>"

definition confirmed_hi :: message where
  "confirmed_hi = \<lparr> id_msg = ''42'', sender = ''me'', senderEmail = ''me@x'',
                    senderLanguage = ''en'', text_msg = ''hi'', timestamp = 105 \<rparr>"

definition translated_hola :: tmsg where
  "translated_hola =
     (newMessage viewer hola)\<lparr> translatedText := Some ''hello'', isTranslating := Some False \<rparr>"

definition hola_backend :: backend where
  "hola_backend =
     \<lparr> table_rows =
         [\<lparr> id_row = ''1'', room_id = ''r'', sender_email = ''ana@x'', sender_username = ''ana'',
            sender_language = ''es'', text_row = ''hola'', created_at = 100 \<rparr>],
       fault = None \<rparr>"

section \<open>History fetch\<close>

text \<open>
  C1 (as amended). When the store serves the request, \<^verbatim>\<open>fetchHistory\<close> returns the
  conversion of at most 50 rows of the room, sorted ascending by creation time: the rows of
  the room split into the rows kept and the rows dropped, exactly \<open>min 50 n\<close> are kept, and
  no kept row was created after a dropped one. The rows kept are the oldest of the room.
\<close>

theorem fetchHistory_oldest_first:
  assumes "fault be = None"
  shows "\<exists>kept dropped.
     fetchHistory be r = Inr (map to_message kept) \<and>
     mset kept + mset dropped = mset (filter (\<lambda>x. room_id x = r) (table_rows be)) \<and>
     length kept = min 50 (length (filter (\<lambda>x. room_id x = r) (table_rows be))) \<and>
     sorted (map created_at kept) \<and>
     (\<forall>k \<in> set kept. \<forall>d \<in> set dropped. created_at k \<le> created_at d)"
proof -
  let ?rs = "filter (\<lambda>x. room_id x = r) (table_rows be)"
  let ?s = "sort_key created_at ?rs"
  have srt: "sorted (map created_at ?s)" by simp
  have "sorted (map created_at (take 50 ?s @ drop 50 ?s))" using srt by simp
  then have le: "\<forall>k \<in> set (take 50 ?s). \<forall>d \<in> set (drop 50 ?s). created_at k \<le> created_at d"
    unfolding map_append sorted_append by auto
  have m: "mset (take 50 ?s) + mset (drop 50 ?s) = mset ?rs"
    by (metis append_take_drop_id mset_append mset_sort)
  have s2: "sorted (map created_at (take 50 ?s))"
    using srt by (metis sorted_wrt_take take_map)
  have f: "fetchHistory be r = Inr (map to_message (take 50 ?s))"
    using assms by (simp add: fetchHistory_def messages_query_def)
  show ?thesis
    using f m s2 le by (intro exI[of _ "take 50 ?s"] exI[of _ "drop 50 ?s"]) simp
qed

theorem fetchHistory_oldest_first_witness:
  "fault sample_backend = None \<and>
   (\<exists>kept dropped.
     fetchHistory sample_backend ''r'' = Inr (map to_message kept) \<and>
     mset kept + mset dropped =
       mset (filter (\<lambda>x. room_id x = ''r'') (table_rows sample_backend)) \<and>
     length kept = min 50 (length (filter (\<lambda>x. room_id x = ''r'') (table_rows sample_backend))) \<and>
     sorted (map created_at kept) \<and>
     (\<forall>k \<in> set kept. \<forall>d \<in> set dropped. created_at k \<le> created_at d))"
proof -
  have h: "fault sample_backend = None" by (simp add: sample_backend_def)
  show ?thesis using h fetchHistory_oldest_first [OF h, of "''r''"] by blast
qed

text \<open>
  C1 as stated fails: of the 51 rows created at the instants 1 to 51, the rows of the
  instants 1 to 50 are returned, not the 50 latest (2 to 51).
\<close>

theorem fetchHistory_latest_counterexample:
  "fetchHistory sample_backend ''r'' = Inr (map sample_message [1..<51]) \<and>
   fetchHistory sample_backend ''r'' \<noteq> Inr (map sample_message [2..<52])"
  by code_simp

section \<open>Lemmas on the list operations\<close>

subsection \<open>\<^verbatim>\<open>findIndex\<close> and the insertion-ordered map\<close>

lemma findIndex_Some:
  "findIndex P xs = Some i \<Longrightarrow> i < length xs \<and> P (xs ! i) \<and> (\<forall>j<i. \<not> P (xs ! j))"
proof (induction xs arbitrary: i)
  case Nil
  then show ?case by simp
next
  case (Cons x xs)
  show ?case
  proof (cases "P x")
    case True
    with Cons.prems show ?thesis by simp
  next
    case False
    with Cons.prems obtain k where k: "findIndex P xs = Some k" "i = Suc k" by auto
    from Cons.IH[OF k(1)] False k(2) show ?thesis by (auto simp: less_Suc_eq_0_disj)
  qed
qed

lemma findIndex_None: "findIndex P xs = None \<longleftrightarrow> (\<forall>x \<in> set xs. \<not> P x)"
  by (induction xs) auto

lemma map_fst_map_set:
  "map fst (map_set al k v) = (if k \<in> fst ` set al then map fst al else map fst al @ [k])"
  by (induction al k v rule: map_set.induct) auto

lemma distinct_map_set: "distinct (map fst al) \<Longrightarrow> distinct (map fst (map_set al k v))"
  by (simp add: map_fst_map_set)

lemma set_map_set:
  "distinct (map fst al) \<Longrightarrow> set (map_set al k v) = insert (k, v) {p \<in> set al. fst p \<noteq> k}"
  by (induction al k v rule: map_set.induct) (auto simp: rev_image_eqI)


lemma unique_of_snoc: "unique_of (xs @ [x]) = map_set (unique_of xs) (id_msg x) x"
  by (simp add: unique_of_def)

lemma distinct_unique_of: "distinct (map fst (unique_of xs))"
  by (induction xs rule: rev_induct) (simp_all add: unique_of_snoc distinct_map_set, simp add: unique_of_def)

lemma unique_of_keys: "(k, v) \<in> set (unique_of xs) \<Longrightarrow> k = id_msg v \<and> v \<in> set xs"
proof (induction xs arbitrary: k v rule: rev_induct)
  case Nil
  then show ?case by (simp add: unique_of_def)
next
  case (snoc x xs)
  then show ?case by (auto simp: unique_of_snoc set_map_set distinct_unique_of)
qed

lemma fst_unique_of: "fst ` set (unique_of xs) = id_msg ` set xs"
proof (induction xs rule: rev_induct)
  case Nil
  then show ?case by (simp add: unique_of_def)
next
  case (snoc x xs)
  have "fst ` set (unique_of (xs @ [x])) = insert (id_msg x) (fst ` set (unique_of xs))"
    by (auto simp: unique_of_snoc set_map_set distinct_unique_of rev_image_eqI)
  then show ?case using snoc by simp
qed

lemma map_fst_unique_of: "map fst (unique_of xs) = map id_msg (map snd (unique_of xs))"
proof -
  have "\<forall>p \<in> set (unique_of xs). fst p = id_msg (snd p)"
    using unique_of_keys[of _ _ xs] by (metis prod.collapse)
  then show ?thesis by simp
qed

lemma unique_of_keeps_last:
  "m \<in> set ys \<Longrightarrow> distinct (map id_msg ys) \<Longrightarrow> (id_msg m, m) \<in> set (unique_of (xs @ ys))"
proof (induction ys rule: rev_induct)
  case Nil
  then show ?case by simp
next
  case (snoc y ys)
  show ?case
  proof (cases "m = y")
    case True
    then show ?thesis
      by (simp add: unique_of_snoc[of "xs @ ys" y, simplified] set_map_set distinct_unique_of)
  next
    case False
    with snoc.prems have a: "m \<in> set ys" and b: "distinct (map id_msg ys)"
      and c: "id_msg y \<notin> id_msg ` set ys"
      by auto
    from a c have "id_msg m \<noteq> id_msg y" by (metis imageI)
    note a b this
    with snoc.IH show ?thesis
      by (simp add: unique_of_snoc[of "xs @ ys" y, simplified] set_map_set distinct_unique_of)
  qed
qed


lemma distinct_map_sort_key: "distinct (map f (sort_key g xs)) = distinct (map f xs)"
proof -
  have "mset (map f (sort_key g xs)) = mset (map f xs)" by simp
  then show ?thesis by (rule mset_eq_imp_distinct_iff)
qed

lemma id_as_TranslatedMessage [simp]: "id_msg (as_TranslatedMessage m) = id_msg m"
  by (simp add: as_TranslatedMessage_def)

lemma set_initRoom_merge:
  "set (initRoom_merge history prev) \<subseteq> as_TranslatedMessage ` set history \<union> set prev"
proof
  fix v assume "v \<in> set (initRoom_merge history prev)"
  then obtain k where "(k, v) \<in> set (unique_of (map as_TranslatedMessage history @ prev))"
    by (auto simp: initRoom_merge_def)
  from unique_of_keys[OF this] show "v \<in> as_TranslatedMessage ` set history \<union> set prev"
    by auto
qed

lemma ids_initRoom_merge:
  "id_msg ` set (initRoom_merge history prev) = id_msg ` set history \<union> id_msg ` set prev"
proof -
  let ?u = "unique_of (map as_TranslatedMessage history @ prev)"
  have "id_msg ` set (initRoom_merge history prev) = set (map id_msg (map snd ?u))"
    by (simp add: initRoom_merge_def image_image)
  also have "\<dots> = fst ` set ?u" by (simp only: map_fst_unique_of[symmetric] set_map)
  also have "\<dots> = id_msg ` set (map as_TranslatedMessage history @ prev)" by (rule fst_unique_of)
  also have "\<dots> = id_msg ` set history \<union> id_msg ` set prev"
    by (simp add: image_Un image_image)
  finally show ?thesis .
qed

lemma distinct_initRoom_merge: "distinct (map id_msg (initRoom_merge history prev))"
  using distinct_unique_of[of "map as_TranslatedMessage history @ prev"]
  by (simp add: initRoom_merge_def distinct_map_sort_key map_fst_unique_of del: map_map)

lemma sorted_initRoom_merge: "sorted (map timestamp (initRoom_merge history prev))"
  by (simp add: initRoom_merge_def)

lemma initRoom_merge_keeps:
  "m \<in> set prev \<Longrightarrow> distinct (map id_msg prev) \<Longrightarrow> m \<in> set (initRoom_merge history prev)"
  using unique_of_keeps_last[of m prev "map as_TranslatedMessage history"]
  by (force simp: initRoom_merge_def)

subsection \<open>\<^verbatim>\<open>processMessage\<close>\<close>

lemma list_ex_id: "list_ex (\<lambda>m. id_msg m = k) xs \<longleftrightarrow> k \<in> id_msg ` set xs"
  by (auto simp: list_ex_iff)

lemma id_newMessage [simp]: "id_msg (newMessage usr msg) = id_msg msg"
  by (simp add: newMessage_def)

lemma timestamp_newMessage [simp]: "timestamp (newMessage usr msg) = timestamp msg"
  by (simp add: newMessage_def)

lemma processMessage_fresh:
  assumes "id_msg msg \<notin> id_msg ` set prev"
  shows "processMessage (Some usr) msg prev =
           sort_key timestamp
             (case findIndex (tempMatch msg) prev of
                Some i \<Rightarrow> prev[i := newMessage usr msg]
              | None \<Rightarrow> prev @ [newMessage usr msg])"
  using assms by (simp add: processMessage_def list_ex_id)

lemma processMessage_known:
  "id_msg msg \<in> id_msg ` set prev \<Longrightarrow> processMessage userRef msg prev = prev"
  by (simp add: processMessage_def list_ex_id split: option.splits)

lemma processMessage_no_user: "processMessage None msg prev = prev"
  by (simp add: processMessage_def)

lemma set_processMessage:
  "set (processMessage (Some usr) msg prev) \<subseteq> insert (newMessage usr msg) (set prev)"
proof (cases "id_msg msg \<in> id_msg ` set prev")
  case True
  then show ?thesis by (auto simp: processMessage_known)
next
  case False
  show ?thesis
    using set_update_subset_insert[of prev _ "newMessage usr msg"]
    by (auto simp: processMessage_fresh[OF False] split: option.splits)
qed

lemma distinct_processMessage:
  assumes "distinct (map id_msg prev)"
  shows "distinct (map id_msg (processMessage userRef msg prev))"
proof (cases userRef)
  case None
  then show ?thesis using assms by (simp add: processMessage_no_user)
next
  case (Some usr)
  show ?thesis
  proof (cases "id_msg msg \<in> id_msg ` set prev")
    case True
    then show ?thesis using assms by (simp add: processMessage_known)
  next
    case False
    show ?thesis
    proof (cases "findIndex (tempMatch msg) prev")
      case None
      then show ?thesis using assms False Some
        by (simp add: processMessage_fresh distinct_map_sort_key)
    next
      case (Some i)
      have "id_msg msg \<notin> set (map id_msg prev) - {map id_msg prev ! i}" using False by simp
      with assms have "distinct ((map id_msg prev)[i := id_msg msg])"
        by (rule distinct_list_update)
      then show ?thesis using False Some \<open>userRef = Some usr\<close>
        by (simp add: processMessage_fresh distinct_map_sort_key map_update)
    qed
  qed
qed

lemma sorted_processMessage:
  assumes "sorted (map timestamp prev)"
  shows "sorted (map timestamp (processMessage userRef msg prev))"
proof (cases userRef)
  case None
  then show ?thesis using assms by (simp add: processMessage_no_user)
next
  case (Some usr)
  show ?thesis
  proof (cases "id_msg msg \<in> id_msg ` set prev")
    case True
    then show ?thesis using assms by (simp add: processMessage_known)
  next
    case False
    then show ?thesis using Some by (simp add: processMessage_fresh)
  qed
qed

lemma processMessage_contains:
  "id_msg msg \<in> id_msg ` set (processMessage (Some usr) msg prev)"
proof (cases "id_msg msg \<in> id_msg ` set prev")
  case True
  then show ?thesis by (simp add: processMessage_known)
next
  case False
  show ?thesis
  proof (cases "findIndex (tempMatch msg) prev")
    case None
    then show ?thesis using False by (simp add: processMessage_fresh)
  next
    case (Some i)
    then have "i < length prev" by (simp add: findIndex_Some)
    then have "newMessage usr msg \<in> set (prev[i := newMessage usr msg])"
      by (rule set_update_memI)
    then have "id_msg (newMessage usr msg) \<in> id_msg ` set (prev[i := newMessage usr msg])"
      by (rule imageI)
    then show ?thesis using False Some by (simp add: processMessage_fresh)
  qed
qed

lemma processMessage_idempotent:
  "processMessage userRef msg (processMessage userRef msg prev) = processMessage userRef msg prev"
proof (cases userRef)
  case None
  then show ?thesis by (simp add: processMessage_no_user)
next
  case (Some usr)
  then show ?thesis using processMessage_contains[of msg usr prev]
    by (simp add: processMessage_known)
qed

lemma processMessage_retains:
  assumes "x \<in> set prev" and "\<not> startsWith_temp (id_msg x)"
  shows "x \<in> set (processMessage userRef msg prev)"
proof (cases userRef)
  case None
  then show ?thesis using assms by (simp add: processMessage_no_user)
next
  case (Some usr)
  show ?thesis
  proof (cases "id_msg msg \<in> id_msg ` set prev")
    case True
    then show ?thesis using assms by (simp add: processMessage_known)
  next
    case False
    show ?thesis
    proof (cases "findIndex (tempMatch msg) prev")
      case None
      then show ?thesis using False assms \<open>userRef = Some usr\<close> by (simp add: processMessage_fresh)
    next
      case (Some i)
      then have i: "i < length prev" "tempMatch msg (prev ! i)" by (simp_all add: findIndex_Some)
      then have "prev ! i \<noteq> x" using assms(2) by (auto simp: tempMatch_def)
      moreover obtain j where "j < length prev" "prev ! j = x"
        using assms(1) by (auto simp: in_set_conv_nth)
      ultimately have "x \<in> set (prev[i := newMessage usr msg])"
        by (metis i(1) length_list_update nth_list_update_neq nth_mem)
      then show ?thesis using False Some \<open>userRef = Some usr\<close> by (simp add: processMessage_fresh)
    qed
  qed
qed

subsection \<open>Handlers and executions\<close>

lemma translation_effect_fields [simp]:
  "messages (translation_effect cu st) = messages st"
  "error (translation_effect cu st) = error st"
  "inputText (translation_effect cu st) = inputText st"
  "sending (translation_effect cu st) = sending st"
  by (simp_all add: translation_effect_def split: option.splits)

lemma setMessages_fields [simp]:
  "messages (setMessages cu new st) = new"
  "error (setMessages cu new st) = error st"
  "inputText (setMessages cu new st) = inputText st"
  "sending (setMessages cu new st) = sending st"
  by (simp_all add: setMessages_def)

lemma messages_live [simp]:
  "messages (processMessage_event userRef msg st) = processMessage userRef msg (messages st)"
  by (auto simp: processMessage_event_def processMessage_no_user processMessage_known list_ex_id)

lemma messages_history [simp]:
  "messages (initRoom_settled cu (Inr history) st) = initRoom_merge history (messages st)"
  "messages (initRoom_settled cu (Inl err) st) = messages st"
  by (simp_all add: initRoom_settled_def)

lemma messages_submit:
  "messages (sendMessage_submit (Some usr) (Some room) now1 now2 st) =
     (if trim (inputText st) = [] then messages st
      else messages st @ [optimisticMessage usr (inputText st) now1 now2])"
  by (simp add: sendMessage_submit_def Let_def)

lemma messages_catch [simp]:
  "messages (sendMessage_catch cu tempId txt err st) =
     filter (\<lambda>m. id_msg m \<noteq> tempId) (messages st)"
  by (simp add: sendMessage_catch_def)

lemma messages_settled [simp]:
  "messages (doTranslation_settled cu k reply u st) =
     doTranslation (translateText k reply (text_msg u)) u (messages st)"
  by (simp add: doTranslation_settled_def)

lemma run_snoc: "run usr room (evs @ [ev]) st = step usr room ev (run usr room evs st)"
  by (simp add: run_def)

lemma run_Nil [simp]: "run usr room [] st = st"
  by (simp add: run_def)

lemma step_admission_distinct:
  assumes "is_admission ev" and "distinct (map id_msg (messages st))"
  shows "distinct (map id_msg (messages (step usr room ev st)))"
proof (cases ev)
  case (HistorySettled result)
  then show ?thesis using assms(2) by (cases result) (simp_all add: distinct_initRoom_merge)
next
  case (LiveMessage msg)
  then show ?thesis using assms(2) by (simp add: distinct_processMessage)
qed (use assms(1) in simp_all)

lemma step_admission_retains:
  assumes "is_admission ev" and "x \<in> set (messages st)" and "\<not> startsWith_temp (id_msg x)"
    and "distinct (map id_msg (messages st))"
  shows "x \<in> set (messages (step usr room ev st))"
proof (cases ev)
  case (HistorySettled result)
  then show ?thesis using assms by (cases result) (simp_all add: initRoom_merge_keeps)
next
  case (LiveMessage msg)
  then show ?thesis using assms by (simp add: processMessage_retains)
qed (use assms(1) in simp_all)

lemma step_admission_brings:
  assumes "i \<in> set (admitted_ids ev)"
  shows "i \<in> id_msg ` set (messages (step usr room ev st))"
proof (cases ev)
  case (HistorySettled result)
  then show ?thesis using assms by (cases result) (auto simp: ids_initRoom_merge)
next
  case (LiveMessage msg)
  then show ?thesis using assms by (simp add: processMessage_contains)
qed (use assms in simp_all)

lemma run_admissions:
  assumes "\<forall>ev \<in> set evs. is_admission ev"
  shows "distinct (map id_msg (messages (run usr room evs room_entered))) \<and>
         (\<forall>ev \<in> set evs. \<forall>i \<in> set (admitted_ids ev). \<not> startsWith_temp i \<longrightarrow>
            i \<in> id_msg ` set (messages (run usr room evs room_entered)))"
  using assms
proof (induction evs rule: rev_induct)
  case Nil
  then show ?case by (simp add: room_entered_def)
next
  case (snoc ev evs)
  let ?st = "run usr room evs room_entered"
  from snoc have ih: "distinct (map id_msg (messages ?st))"
    and ih2: "\<forall>e \<in> set evs. \<forall>i \<in> set (admitted_ids e). \<not> startsWith_temp i \<longrightarrow>
            i \<in> id_msg ` set (messages ?st)"
    and adm: "is_admission ev" by auto
  have d: "distinct (map id_msg (messages (step usr room ev ?st)))"
    using adm ih by (rule step_admission_distinct)
  have "i \<in> id_msg ` set (messages (step usr room ev ?st))"
    if "e \<in> set (evs @ [ev])" "i \<in> set (admitted_ids e)" "\<not> startsWith_temp i" for e i
  proof (cases "e = ev")
    case True
    then show ?thesis using that step_admission_brings by simp
  next
    case False
    with that have "e \<in> set evs" by simp
    with ih2 that obtain x where x: "x \<in> set (messages ?st)" "id_msg x = i" by auto
    with that have "x \<in> set (messages (step usr room ev ?st))"
      using step_admission_retains[OF adm _ _ ih] by simp
    with x show ?thesis by auto
  qed
  with d show ?case by (simp only: run_snoc) blast
qed

lemma step_live_twice:
  "step usr room (LiveMessage msg) (step usr room (LiveMessage msg) st) =
   step usr room (LiveMessage msg) st"
proof -
  have "id_msg msg \<in> id_msg ` set (messages (processMessage_event (Some usr) msg st))"
    by (simp add: processMessage_contains)
  then show ?thesis
    by (simp add: processMessage_event_def[of _ msg "processMessage_event (Some usr) msg st"] list_ex_id)
qed

lemma distinct_count_one: "distinct xs \<Longrightarrow> x \<in> set xs \<Longrightarrow> count_list xs x = 1"
  by (metis count_mset distinct_count_atmost_1 set_mset_mset)

section \<open>Unique ids\<close>

text \<open>
  C4. After every sequence of admissions from history and from the live channel, starting
  from the empty list of a room just entered, no id occurs twice in the list; every
  admitted id that is not a temporary id occurs exactly once; and admitting the same
  message from the live channel a second time leaves the whole state unchanged.
\<close>

theorem admission_ids_unique:
  assumes "\<forall>ev \<in> set evs. is_admission ev"
  shows "distinct (map id_msg (messages (run usr room evs room_entered))) \<and>
         (\<forall>ev \<in> set evs. \<forall>i \<in> set (admitted_ids ev). \<not> startsWith_temp i \<longrightarrow>
            count_list (map id_msg (messages (run usr room evs room_entered))) i = 1) \<and>
         step usr room (LiveMessage msg) (step usr room (LiveMessage msg) (run usr room evs room_entered)) =
           step usr room (LiveMessage msg) (run usr room evs room_entered)"
proof -
  let ?ids = "map id_msg (messages (run usr room evs room_entered))"
  from run_admissions[OF assms, of usr room]
  have d: "distinct ?ids"
    and p: "\<forall>ev \<in> set evs. \<forall>i \<in> set (admitted_ids ev). \<not> startsWith_temp i \<longrightarrow> i \<in> set ?ids"
    by simp_all
  from p have c: "\<forall>ev \<in> set evs. \<forall>i \<in> set (admitted_ids ev). \<not> startsWith_temp i \<longrightarrow>
            count_list ?ids i = 1"
    using distinct_count_one[OF d] by blast
  show ?thesis
    by (intro conjI) (rule d, rule c, rule step_live_twice)
qed

theorem admission_ids_unique_witness:
  "list_all is_admission
      [HistorySettled (Inr [hola]), LiveMessage hola, LiveMessage adios, LiveMessage adios] \<and>
   map id_msg (messages (run viewer lobby
      [HistorySettled (Inr [hola]), LiveMessage hola, LiveMessage adios, LiveMessage adios]
      room_entered)) = [''1'', ''2''] \<and>
   distinct (map id_msg (messages (run viewer lobby
      [HistorySettled (Inr [hola]), LiveMessage hola, LiveMessage adios, LiveMessage adios]
      room_entered))) \<and>
   count_list (map id_msg (messages (run viewer lobby
      [HistorySettled (Inr [hola]), LiveMessage hola, LiveMessage adios, LiveMessage adios]
      room_entered))) ''1'' = 1"
proof -
  let ?evs = "[HistorySettled (Inr [hola]), LiveMessage hola, LiveMessage adios, LiveMessage adios]"
  have h: "\<forall>ev \<in> set ?evs. is_admission ev" by simp
  have e: "map id_msg (messages (run viewer lobby ?evs room_entered)) = [''1'', ''2'']"
    by code_simp
  have m: "LiveMessage hola \<in> set ?evs" by simp
  have i: "''1'' \<in> set (admitted_ids (LiveMessage hola))" by (simp add: hola_def)
  have t: "\<not> startsWith_temp ''1''" by (simp add: startsWith_temp_def)
  note T = admission_ids_unique[OF h, of viewer lobby hola]
  have d: "distinct (map id_msg (messages (run viewer lobby ?evs room_entered)))"
    using T by (rule conjunct1)
  have c: "count_list (map id_msg (messages (run viewer lobby ?evs room_entered))) ''1'' = 1"
    using T[THEN conjunct2, THEN conjunct1, rule_format, OF m i t] .
  have l: "list_all is_admission ?evs" by simp
  show ?thesis
    by (intro conjI) (rule l, rule e, rule d, rule c)
qed

section \<open>Own messages are never marked for translation\<close>


lemma doTranslation_elem:
  assumes "x \<in> set (doTranslation outcome u prev)"
  shows "\<exists>m \<in> set prev. senderEmail x = senderEmail m \<and>
           (isTranslating x = isTranslating m \<or> isTranslating x = Some False)"
  using assms by (cases outcome) (auto simp: doTranslation_def)

lemma step_own_not_translating:
  assumes inv: "\<forall>m \<in> set (messages st). senderEmail m = email usr \<longrightarrow> isTranslating m \<noteq> Some True"
  shows "\<forall>m \<in> set (messages (step usr room ev st)).
           senderEmail m = email usr \<longrightarrow> isTranslating m \<noteq> Some True"
proof (cases ev)
  case (HistorySettled result)
  show ?thesis
  proof (cases result)
    case (Inl err)
    with HistorySettled inv show ?thesis by simp
  next
    case (Inr history)
    have "isTranslating (as_TranslatedMessage x) \<noteq> Some True" for x
      by (simp add: as_TranslatedMessage_def)
    with inv set_initRoom_merge[of history "messages st"] HistorySettled Inr
    show ?thesis by auto
  qed
next
  case (LiveMessage msg)
  have "senderEmail (newMessage usr msg) = email usr \<longrightarrow>
          isTranslating (newMessage usr msg) \<noteq> Some True"
    by (simp add: newMessage_def)
  with inv set_processMessage[of usr msg "messages st"] LiveMessage
  show ?thesis by auto
next
  case (InputTyped s)
  with inv show ?thesis by simp
next
  case (SendSubmitted now1 now2)
  have "isTranslating (optimisticMessage usr t now1 now2) \<noteq> Some True" for t
    by (simp add: optimisticMessage_def)
  with inv SendSubmitted show ?thesis by (auto simp: messages_submit)
next
  case (SendResolved i)
  with inv show ?thesis by simp
next
  case (SendRejected i err)
  with inv show ?thesis by simp
next
  case (TranslationSettled i k reply)
  show ?thesis
  proof (cases "i < length (translating st)")
    case True
    show ?thesis
    proof (intro ballI impI)
      fix x assume x: "x \<in> set (messages (step usr room ev st))" "senderEmail x = email usr"
      with TranslationSettled True obtain m where
        "m \<in> set (messages st)" "senderEmail x = senderEmail m"
        "isTranslating x = isTranslating m \<or> isTranslating x = Some False"
        using doTranslation_elem by (fastforce simp: messages_settled)
      with inv x(2) show "isTranslating x \<noteq> Some True" by auto
    qed
  next
    case False
    with inv TranslationSettled show ?thesis by simp
  qed
qed

lemma run_own_not_translating:
  assumes "\<forall>m \<in> set (messages st). senderEmail m = email usr \<longrightarrow> isTranslating m \<noteq> Some True"
  shows "\<forall>m \<in> set (messages (run usr room evs st)).
           senderEmail m = email usr \<longrightarrow> isTranslating m \<noteq> Some True"
  using assms
proof (induction evs rule: rev_induct)
  case Nil
  then show ?case by simp
next
  case (snoc ev evs)
  from snoc.IH[OF snoc.prems] show ?case
    unfolding run_snoc by (rule step_own_not_translating)
qed


text \<open>
  C9. In every state reached from a room just entered, by any sequence of history results,
  live messages, local sends, send results and translation results, no message whose
  \<^verbatim>\<open>senderEmail\<close> is the viewer's email has \<^verbatim>\<open>isTranslating\<close> true.
\<close>

theorem own_messages_never_translating:
  "\<forall>m \<in> set (messages (run usr room evs room_entered)).
     senderEmail m = email usr \<longrightarrow> isTranslating m \<noteq> Some True"
  by (rule run_own_not_translating) (simp add: room_entered_def)

theorem own_messages_never_translating_witness:
  "newMessage viewer confirmed_hi \<in> set (messages (run viewer lobby
      [InputTyped ''hi'', SendSubmitted 100 100, LiveMessage confirmed_hi, LiveMessage hola]
      room_entered)) \<and>
   senderEmail (newMessage viewer confirmed_hi) = email viewer \<and>
   isTranslating (newMessage viewer confirmed_hi) \<noteq> Some True"
proof -
  let ?evs = "[InputTyped ''hi'', SendSubmitted 100 100, LiveMessage confirmed_hi, LiveMessage hola]"
  have mem: "newMessage viewer confirmed_hi \<in> set (messages (run viewer lobby ?evs room_entered))"
    by code_simp
  have own: "senderEmail (newMessage viewer confirmed_hi) = email viewer"
    by (simp add: newMessage_def confirmed_hi_def viewer_def)
  from own_messages_never_translating[of viewer lobby ?evs, rule_format, OF mem own]
  have "isTranslating (newMessage viewer confirmed_hi) \<noteq> Some True" .
  with mem own show ?thesis by (intro conjI)
qed

lemma unique_of_prefers_later:
  "(k, v) \<in> set (unique_of (xs @ ys)) \<Longrightarrow> k \<in> id_msg ` set ys \<Longrightarrow> v \<in> set ys"
proof (induction ys arbitrary: k v rule: rev_induct)
  case Nil
  then show ?case by simp
next
  case (snoc y ys)
  have s: "set (unique_of (xs @ ys @ [y])) =
           insert (id_msg y, y) {p \<in> set (unique_of (xs @ ys)). fst p \<noteq> id_msg y}"
    using unique_of_snoc[of "xs @ ys" y] by (simp add: set_map_set distinct_unique_of)
  show ?case
  proof (cases "k = id_msg y")
    case True
    with snoc.prems(1) s show ?thesis by auto
  next
    case False
    with snoc.prems s have "(k, v) \<in> set (unique_of (xs @ ys))" "k \<in> id_msg ` set ys"
      by auto
    with snoc.IH show ?thesis by auto
  qed
qed

lemma initRoom_merge_prefers_memory:
  assumes "x \<in> set (initRoom_merge history prev)" and "id_msg x \<in> id_msg ` set prev"
  shows "x \<in> set prev"
proof -
  from assms(1) obtain k where k: "(k, x) \<in> set (unique_of (map as_TranslatedMessage history @ prev))"
    by (auto simp: initRoom_merge_def)
  with unique_of_keys have "k = id_msg x" by blast
  with k assms(2) show ?thesis using unique_of_prefers_later by blast
qed

section \<open>History resolving after live messages\<close>

text \<open>
  C10. When the history result is merged into the list in memory, every message of the
  result whose id occurs in memory is a message of the memory, not the row fetched; and when
  the ids in memory are unique, every message in memory is in the result as it was, with
  its \<^verbatim>\<open>translatedText\<close> and \<^verbatim>\<open>isTranslating\<close>, the only one of its id.
\<close>

theorem history_keeps_memory_version:
  "(\<forall>x \<in> set (messages (step usr room (HistorySettled (Inr history)) st)).
      id_msg x \<in> id_msg ` set (messages st) \<longrightarrow> x \<in> set (messages st)) \<and>
   (distinct (map id_msg (messages st)) \<longrightarrow>
      (\<forall>m \<in> set (messages st).
         m \<in> set (messages (step usr room (HistorySettled (Inr history)) st)) \<and>
         (\<forall>x \<in> set (messages (step usr room (HistorySettled (Inr history)) st)).
            id_msg x = id_msg m \<longrightarrow> x = m)))"
proof (intro conjI ballI impI)
  fix x assume "x \<in> set (messages (step usr room (HistorySettled (Inr history)) st))"
    and "id_msg x \<in> id_msg ` set (messages st)"
  then show "x \<in> set (messages st)"
    using initRoom_merge_prefers_memory by simp
next
  fix m assume d: "distinct (map id_msg (messages st))" and m: "m \<in> set (messages st)"
  then show "m \<in> set (messages (step usr room (HistorySettled (Inr history)) st))"
    by (simp add: initRoom_merge_keeps)
next
  fix m x assume d: "distinct (map id_msg (messages st))" and m: "m \<in> set (messages st)"
    and x: "x \<in> set (messages (step usr room (HistorySettled (Inr history)) st))"
    and e: "id_msg x = id_msg m"
  from x e m have "x \<in> set (messages st)"
    using initRoom_merge_prefers_memory[of x history "messages st"] by simp
  with d m e show "x = m" by (simp add: distinct_map inj_on_def)
qed

theorem history_keeps_memory_version_witness:
  "distinct (map id_msg (messages (run viewer lobby
      [LiveMessage hola, TranslationSettled 0 True (GatewayText (Some ''hello''))] room_entered))) \<and>
   translated_hola \<in> set (messages (run viewer lobby
      [LiveMessage hola, TranslationSettled 0 True (GatewayText (Some ''hello''))] room_entered)) \<and>
   messages (step viewer lobby (HistorySettled (Inr [hola, adios])) (run viewer lobby
      [LiveMessage hola, TranslationSettled 0 True (GatewayText (Some ''hello''))] room_entered))
     = [translated_hola, as_TranslatedMessage adios] \<and>
   translated_hola \<in> set (messages (step viewer lobby (HistorySettled (Inr [hola, adios]))
     (run viewer lobby
      [LiveMessage hola, TranslationSettled 0 True (GatewayText (Some ''hello''))] room_entered)))"
proof -
  let ?st = "run viewer lobby
      [LiveMessage hola, TranslationSettled 0 True (GatewayText (Some ''hello''))] room_entered"
  have d: "distinct (map id_msg (messages ?st))" by code_simp
  have m: "translated_hola \<in> set (messages ?st)" by code_simp
  have e: "messages (step viewer lobby (HistorySettled (Inr [hola, adios])) ?st)
             = [translated_hola, as_TranslatedMessage adios]"
    by code_simp
  note T = history_keeps_memory_version[of viewer lobby "[hola, adios]" ?st]
  from T[THEN conjunct2, rule_format, OF d m, THEN conjunct1]
  have k: "translated_hola \<in> set (messages (step viewer lobby (HistorySettled (Inr [hola, adios])) ?st))" .
  show ?thesis
    by (intro conjI) (rule d, rule m, rule e, rule k)
qed

section \<open>Marking for translation at admission\<close>

text \<open>
  A message admitted from the live channel that is eligible for translation, and whose id
  is new, is in the list with \<^verbatim>\<open>isTranslating\<close> true and no
  \<^verbatim>\<open>translatedText\<close>.
\<close>

lemma live_admission_marks_eligible:
  assumes "senderEmail msg \<noteq> email usr" and "senderLanguage msg \<noteq> preferredLanguage usr"
    and "id_msg msg \<notin> id_msg ` set (messages st)"
  shows "\<exists>m \<in> set (messages (step usr room (LiveMessage msg) st)).
           id_msg m = id_msg msg \<and> isTranslating m = Some True \<and> translatedText m = None"
proof -
  obtain m where m: "m \<in> set (processMessage (Some usr) msg (messages st))"
    "id_msg m = id_msg msg"
    using processMessage_contains[of msg usr "messages st"] by auto
  with assms(3) have "m \<notin> set (messages st)" by force
  with m(1) set_processMessage[of usr msg "messages st"] have "m = newMessage usr msg" by auto
  then have "isTranslating m = Some True \<and> translatedText m = None"
    using assms(1,2) by (simp add: newMessage_def)
  with m show ?thesis by auto
qed

text \<open>
  C2 fails for admission from history. The store holds the one row \<^verbatim>\<open>{id: "1",
  sender_language: "es", text: "hola", created_at: 100}\<close> of another user and the viewer's
  language is \<^verbatim>\<open>"en"\<close>, so the message is eligible for translation; after the
  admission of the fetched history it has no \<^verbatim>\<open>isTranslating\<close> field, and no
  translation request is started.
\<close>

theorem history_admission_not_marked:
  "fetchHistory hola_backend (id_room lobby) = Inr [hola] \<and>
   senderEmail hola \<noteq> email viewer \<and>
   senderLanguage hola \<noteq> preferredLanguage viewer \<and>
   map id_msg (messages (run viewer lobby
      [HistorySettled (fetchHistory hola_backend (id_room lobby))] room_entered)) = [''1''] \<and>
   map isTranslating (messages (run viewer lobby
      [HistorySettled (fetchHistory hola_backend (id_room lobby))] room_entered)) = [None] \<and>
   translating (run viewer lobby
      [HistorySettled (fetchHistory hola_backend (id_room lobby))] room_entered) = []"
  by code_simp

section \<open>Translation requests\<close>



















section \<open>Replacement of a temporary placeholder\<close>

lemma count_list_update:
  assumes "i < length xs" and "k \<notin> set xs"
  shows "count_list (xs[i := k]) k = 1"
    and "Suc (count_list (xs[i := k]) (xs ! i)) = count_list xs (xs ! i)"
proof -
  have m: "mset (xs[i := k]) = add_mset k (mset xs - {#xs ! i#})"
    using assms(1) by (rule mset_update)
  have ne: "xs ! i \<noteq> k" using assms by (metis nth_mem)
  have "count (mset (xs[i := k])) k = 1"
    using assms(2) by (simp add: m count_mset count_list_0_iff ne)
  then show "count_list (xs[i := k]) k = 1" by (simp add: count_mset)
  have "0 < count (mset xs) (xs ! i)" using assms(1) by simp
  then have "Suc (count (mset (xs[i := k])) (xs ! i)) = count (mset xs) (xs ! i)"
    using ne by (simp add: m)
  then show "Suc (count_list (xs[i := k]) (xs ! i)) = count_list xs (xs ! i)"
    by (simp add: count_mset)
qed

lemma count_list_map_sort_key:
  "count_list (map f (sort_key g xs)) k = count_list (map f xs) k"
proof -
  have "mset (map f (sort_key g xs)) = mset (map f xs)" by simp
  then show ?thesis by (metis count_mset)
qed

text \<open>
  C5 (as amended). A message arrives on the live channel, its id is not yet in the list, and
  \<open>i\<close> is the first position of a message with an id starting with \<^verbatim>\<open>temp-\<close>, the
  same \<^verbatim>\<open>senderEmail\<close> and the same \<^verbatim>\<open>text\<close>. Then the new list is the old one
  with that placeholder exchanged for the arrived message, up to order: it has the same
  length, contains the arrived id exactly once and the placeholder's id once less than
  before, hence not at all when the ids of the list were unique.
\<close>

theorem placeholder_replaced:
  assumes "id_msg msg \<notin> id_msg ` set (messages st)"
    and "findIndex (tempMatch msg) (messages st) = Some i"
  shows "mset (messages (step usr room (LiveMessage msg) st)) =
           add_mset (newMessage usr msg) (mset (messages st) - {#messages st ! i#}) \<and>
         length (messages (step usr room (LiveMessage msg) st)) = length (messages st) \<and>
         count_list (map id_msg (messages (step usr room (LiveMessage msg) st))) (id_msg msg) = 1 \<and>
         Suc (count_list (map id_msg (messages (step usr room (LiveMessage msg) st)))
                (id_msg (messages st ! i)))
           = count_list (map id_msg (messages st)) (id_msg (messages st ! i)) \<and>
         (distinct (map id_msg (messages st)) \<longrightarrow>
            id_msg (messages st ! i) \<notin> id_msg ` set (messages (step usr room (LiveMessage msg) st)))"
proof -
  let ?prev = "messages st"
  let ?new = "messages (step usr room (LiveMessage msg) st)"
  let ?ids = "map id_msg ?prev"
  from assms(2) have i: "i < length ?prev" by (simp add: findIndex_Some)
  have new: "?new = sort_key timestamp (?prev[i := newMessage usr msg])"
    using assms by (simp add: processMessage_fresh)
  have ids: "map id_msg (?prev[i := newMessage usr msg]) = ?ids[i := id_msg msg]"
    by (simp add: map_update)
  have fresh: "id_msg msg \<notin> set ?ids" using assms(1) by simp
  have il: "i < length ?ids" using i by simp
  have nth: "?ids ! i = id_msg (?prev ! i)" using i by simp
  have a: "mset ?new = add_mset (newMessage usr msg) (mset ?prev - {#?prev ! i#})"
    unfolding new using i by (simp add: mset_update)
  have b: "length ?new = length ?prev" unfolding new by simp
  have c: "count_list (map id_msg ?new) (id_msg msg) = 1"
    unfolding new count_list_map_sort_key ids using il fresh by (rule count_list_update(1))
  have d: "Suc (count_list (map id_msg ?new) (id_msg (?prev ! i))) =
             count_list ?ids (id_msg (?prev ! i))"
    unfolding new count_list_map_sort_key ids nth[symmetric]
    using il fresh by (rule count_list_update(2))
  have e: "id_msg (?prev ! i) \<notin> id_msg ` set ?new" if "distinct ?ids"
  proof -
    have "id_msg (?prev ! i) \<in> set ?ids" using i by simp
    with that have "count_list ?ids (id_msg (?prev ! i)) = 1" by (rule distinct_count_one)
    with d have "count_list (map id_msg ?new) (id_msg (?prev ! i)) = 0" by simp
    then show ?thesis by (simp add: count_list_0_iff)
  qed
  from a b c d e show ?thesis by blast
qed


theorem placeholder_replaced_witness:
  "id_msg confirmed_hi \<notin> id_msg ` set (messages (run viewer lobby
      [InputTyped ''hi'', SendSubmitted 100 100] room_entered)) \<and>
   findIndex (tempMatch confirmed_hi) (messages (run viewer lobby
      [InputTyped ''hi'', SendSubmitted 100 100] room_entered)) = Some 0 \<and>
   map id_msg (messages (run viewer lobby
      [InputTyped ''hi'', SendSubmitted 100 100] room_entered)) = [''temp-100''] \<and>
   map id_msg (messages (step viewer lobby (LiveMessage confirmed_hi) (run viewer lobby
      [InputTyped ''hi'', SendSubmitted 100 100] room_entered))) = [''42''] \<and>
   count_list (map id_msg (messages (step viewer lobby (LiveMessage confirmed_hi)
      (run viewer lobby [InputTyped ''hi'', SendSubmitted 100 100] room_entered))))
      (id_msg confirmed_hi) = 1 \<and>
   length (messages (step viewer lobby (LiveMessage confirmed_hi) (run viewer lobby
      [InputTyped ''hi'', SendSubmitted 100 100] room_entered))) = 1"
proof -
  let ?st = "run viewer lobby [InputTyped ''hi'', SendSubmitted 100 100] room_entered"
  have h1: "id_msg confirmed_hi \<notin> id_msg ` set (messages ?st)" by code_simp
  have h2: "findIndex (tempMatch confirmed_hi) (messages ?st) = Some 0" by code_simp
  have e1: "map id_msg (messages ?st) = [''temp-100'']" by code_simp
  have e2: "map id_msg (messages (step viewer lobby (LiveMessage confirmed_hi) ?st)) = [''42'']"
    by code_simp
  have e3: "length (messages ?st) = 1" by code_simp
  note T = placeholder_replaced[OF h1 h2, of viewer lobby]
  have c: "count_list (map id_msg (messages (step viewer lobby (LiveMessage confirmed_hi) ?st)))
             (id_msg confirmed_hi) = 1"
    using T[THEN conjunct2, THEN conjunct2, THEN conjunct1] .
  have l: "length (messages (step viewer lobby (LiveMessage confirmed_hi) ?st)) = 1"
    using T[THEN conjunct2, THEN conjunct1] e3 by (rule trans)
  show ?thesis
    by (intro conjI) (rule h1, rule h2, rule e1, rule e2, rule c, rule l)
qed

text \<open>
  C5 as stated fails when the id of the arriving message is already in the list: the local
  send of \<^verbatim>\<open>"hi"\<close> is followed by a history result that holds the persisted row 42,
  and the live event for row 42 then finds its id present and leaves the list as it is,
  the placeholder included.
\<close>

theorem placeholder_kept_counterexample:
  "findIndex (tempMatch confirmed_hi) (messages (run viewer lobby
      [InputTyped ''hi'', SendSubmitted 100 100, HistorySettled (Inr [confirmed_hi])]
      room_entered)) = Some 0 \<and>
   map id_msg (messages (run viewer lobby
      [InputTyped ''hi'', SendSubmitted 100 100, HistorySettled (Inr [confirmed_hi])]
      room_entered)) = [''temp-100'', ''42''] \<and>
   map id_msg (messages (run viewer lobby
      [InputTyped ''hi'', SendSubmitted 100 100, HistorySettled (Inr [confirmed_hi]),
       LiveMessage confirmed_hi]
      room_entered)) = [''temp-100'', ''42'']"
  by code_simp

section \<open>Timestamp order\<close>

lemma timestamp_doTranslation:
  "map timestamp (doTranslation outcome u prev) = map timestamp prev"
  by (cases outcome) (simp_all add: doTranslation_def)

lemma sorted_live_fresh:
  "id_msg msg \<notin> id_msg ` set (messages st) \<Longrightarrow>
     sorted (map timestamp (messages (step usr room (LiveMessage msg) st)))"
  by (simp add: processMessage_fresh)

lemma sorted_step:
  assumes "\<forall>now1 now2. ev \<noteq> SendSubmitted now1 now2"
    and "sorted (map timestamp (messages st))"
  shows "sorted (map timestamp (messages (step usr room ev st)))"
proof (cases ev)
  case (HistorySettled result)
  then show ?thesis using assms(2) by (cases result) (simp_all add: sorted_initRoom_merge)
next
  case (LiveMessage msg)
  then show ?thesis using assms(2) by (simp add: sorted_processMessage)
next
  case (InputTyped s)
  then show ?thesis using assms(2) by simp
next
  case (SendSubmitted now1 now2)
  then show ?thesis using assms(1) by simp
next
  case (SendResolved i)
  then show ?thesis using assms(2) by simp
next
  case (SendRejected i err)
  then show ?thesis using assms(2) by (simp add: sorted_filter)
next
  case (TranslationSettled i k reply)
  then show ?thesis using assms(2) by (simp add: timestamp_doTranslation)
qed

lemma sorted_submit:
  assumes "trim (inputText st) \<noteq> []"
  shows "sorted (map timestamp (messages (step usr room (SendSubmitted now1 now2) st))) \<longleftrightarrow>
         sorted (map timestamp (messages st)) \<and> (\<forall>m \<in> set (messages st). timestamp m \<le> int now2)"
  using assms by (auto simp: messages_submit sorted_append optimisticMessage_def)

text \<open>
  C6 (as amended). After an admission from history the list is sorted by timestamp. After
  an admission from the live channel it is sorted when the id was new, and in any case
  when it was sorted before; every other operation but the optimistic send keeps a sorted
  list sorted. The optimistic send appends without sorting: afterwards the list is sorted
  exactly when it was sorted before and no message in it has a timestamp later than the
  time of the send.
\<close>

theorem timestamp_order_per_operation:
  "sorted (map timestamp (messages (step usr room (HistorySettled (Inr history)) st))) \<and>
   (id_msg msg \<notin> id_msg ` set (messages st) \<longrightarrow>
      sorted (map timestamp (messages (step usr room (LiveMessage msg) st)))) \<and>
   ((\<forall>now1 now2. ev \<noteq> SendSubmitted now1 now2) \<and> sorted (map timestamp (messages st)) \<longrightarrow>
      sorted (map timestamp (messages (step usr room ev st)))) \<and>
   (trim (inputText st) \<noteq> [] \<longrightarrow>
      (sorted (map timestamp (messages (step usr room (SendSubmitted now1 now2) st))) \<longleftrightarrow>
       sorted (map timestamp (messages st)) \<and>
       (\<forall>m \<in> set (messages st). timestamp m \<le> int now2)))"
proof (intro conjI impI)
  show "sorted (map timestamp (messages (step usr room (HistorySettled (Inr history)) st)))"
    by (simp add: sorted_initRoom_merge)
next
  assume "id_msg msg \<notin> id_msg ` set (messages st)"
  then show "sorted (map timestamp (messages (step usr room (LiveMessage msg) st)))"
    by (rule sorted_live_fresh)
next
  assume "(\<forall>now1 now2. ev \<noteq> SendSubmitted now1 now2) \<and> sorted (map timestamp (messages st))"
  then show "sorted (map timestamp (messages (step usr room ev st)))"
    using sorted_step by blast
next
  assume "trim (inputText st) \<noteq> []"
  then show "sorted (map timestamp (messages (step usr room (SendSubmitted now1 now2) st))) \<longleftrightarrow>
       sorted (map timestamp (messages st)) \<and>
       (\<forall>m \<in> set (messages st). timestamp m \<le> int now2)"
    by (rule sorted_submit)
qed

theorem timestamp_order_per_operation_witness:
  "id_msg hola \<notin> id_msg ` set (messages (run viewer lobby
      [LiveMessage adios, InputTyped ''hi''] room_entered)) \<and>
   sorted (map timestamp (messages (step viewer lobby (LiveMessage hola)
      (run viewer lobby [LiveMessage adios, InputTyped ''hi''] room_entered)))) \<and>
   sorted (map timestamp (messages (run viewer lobby
      [LiveMessage adios, InputTyped ''hi''] room_entered))) \<and>
   sorted (map timestamp (messages (step viewer lobby (SendResolved 0)
      (run viewer lobby [LiveMessage adios, InputTyped ''hi''] room_entered)))) \<and>
   trim (inputText (run viewer lobby [LiveMessage adios, InputTyped ''hi''] room_entered)) \<noteq> [] \<and>
   map timestamp (messages (step viewer lobby (SendSubmitted 300 300)
      (run viewer lobby [LiveMessage adios, InputTyped ''hi''] room_entered))) = [200, 300] \<and>
   sorted (map timestamp (messages (step viewer lobby (SendSubmitted 300 300)
      (run viewer lobby [LiveMessage adios, InputTyped ''hi''] room_entered))))"
proof -
  let ?st = "run viewer lobby [LiveMessage adios, InputTyped ''hi''] room_entered"
  note T = timestamp_order_per_operation[of viewer lobby _ ?st hola "SendResolved 0" 300 300]
  have h1: "id_msg hola \<notin> id_msg ` set (messages ?st)" by code_simp
  have c1: "sorted (map timestamp (messages (step viewer lobby (LiveMessage hola) ?st)))"
    using T[THEN conjunct2, THEN conjunct1, rule_format, OF h1] .
  have h2: "sorted (map timestamp (messages ?st))" by code_simp
  have h2': "\<forall>now1 now2. SendResolved 0 \<noteq> SendSubmitted now1 now2" by simp
  have c2: "sorted (map timestamp (messages (step viewer lobby (SendResolved 0) ?st)))"
    using T[THEN conjunct2, THEN conjunct2, THEN conjunct1, rule_format, OF conjI[OF h2' h2]] .
  have h3: "trim (inputText ?st) \<noteq> []" by code_simp
  have h4: "\<forall>m \<in> set (messages ?st). timestamp m \<le> int 300" by code_simp
  have e: "map timestamp (messages (step viewer lobby (SendSubmitted 300 300) ?st)) = [200, 300]"
    by code_simp
  have c3: "sorted (map timestamp (messages (step viewer lobby (SendSubmitted 300 300) ?st)))"
    using T[THEN conjunct2, THEN conjunct2, THEN conjunct2, rule_format, OF h3] h2 h4 by blast
  show ?thesis
    by (intro conjI) (rule h1, rule c1, rule h2, rule c2, rule h3, rule e, rule c3)
qed

text \<open>
  C6 as stated fails for the optimistic send: the list holds a message stamped 200 by the
  store, the local clock reads 100 at the send, and the new message is appended after it.
\<close>

theorem send_breaks_order_counterexample:
  "map timestamp (messages (run viewer lobby
      [LiveMessage adios, InputTyped ''hi'', SendSubmitted 100 100] room_entered)) = [200, 100] \<and>
   \<not> sorted (map timestamp (messages (run viewer lobby
      [LiveMessage adios, InputTyped ''hi'', SendSubmitted 100 100] room_entered)))"
  by code_simp

section \<open>Failure of a translation\<close>

lemma translateText_failure:
  assumes "\<not> has_api_key \<or> reply = GatewayThrows"
  shows "translateText has_api_key reply txt = Inl ''API key is missing'' \<or>
         translateText has_api_key reply txt = Inr txt"
  using assms by (auto simp: translateText_def)

lemma doTranslation_fallback:
  assumes "outcome = Inl e \<or> outcome = Inr (text_msg u)"
  shows "doTranslation outcome u prev =
           map (\<lambda>m. if id_msg m = id_msg u
                    then m\<lparr> translatedText := Some (text_msg u), isTranslating := Some False \<rparr>
                    else m) prev"
  using assms by (auto simp: doTranslation_def)

lemma step_translation_failure:
  assumes "i < length (translating st)" and "\<not> has_api_key \<or> reply = GatewayThrows"
  shows "messages (step usr room (TranslationSettled i has_api_key reply) st) =
           map (\<lambda>m. if id_msg m = id_msg (translating st ! i)
                    then m\<lparr> translatedText := Some (text_msg (translating st ! i)),
                           isTranslating := Some False \<rparr>
                    else m) (messages st)"
  using assms(1) translateText_failure[OF assms(2), of "text_msg (translating st ! i)"]
  by (auto simp: doTranslation_fallback)

lemma step_translation_error:
  "error (step usr room (TranslationSettled i has_api_key reply) st) = error st"
  by (simp add: doTranslation_settled_def)

text \<open>
  C7. A translation request settles in failure: the API key is missing, so that
  \<^verbatim>\<open>translateText\<close> throws, or the gateway throws, which \<^verbatim>\<open>translateText\<close>
  catches. Afterwards every message of the list with the id of the request has the text of
  the message the request was made for as \<^verbatim>\<open>translatedText\<close> and
  \<^verbatim>\<open>isTranslating\<close> false; when that message is still in the list, it is there with
  its own text as \<^verbatim>\<open>translatedText\<close>. The error state is unchanged, as are the ids
  and texts of the list; the handler is total, so nothing escapes it.
\<close>

theorem translation_failure_falls_back:
  assumes "i < length (translating st)" and "\<not> has_api_key \<or> reply = GatewayThrows"
  shows "(\<forall>m \<in> set (messages (step usr room (TranslationSettled i has_api_key reply) st)).
            id_msg m = id_msg (translating st ! i) \<longrightarrow>
            translatedText m = Some (text_msg (translating st ! i)) \<and>
            isTranslating m = Some False) \<and>
         (translating st ! i \<in> set (messages st) \<longrightarrow>
            (translating st ! i)\<lparr> translatedText := Some (text_msg (translating st ! i)),
                                   isTranslating := Some False \<rparr>
              \<in> set (messages (step usr room (TranslationSettled i has_api_key reply) st))) \<and>
         error (step usr room (TranslationSettled i has_api_key reply) st) = error st \<and>
         map id_msg (messages (step usr room (TranslationSettled i has_api_key reply) st)) =
           map id_msg (messages st) \<and>
         map text_msg (messages (step usr room (TranslationSettled i has_api_key reply) st)) =
           map text_msg (messages st)"
proof -
  note m = step_translation_failure[OF assms, of usr room]
  have a: "\<forall>m \<in> set (messages (step usr room (TranslationSettled i has_api_key reply) st)).
            id_msg m = id_msg (translating st ! i) \<longrightarrow>
            translatedText m = Some (text_msg (translating st ! i)) \<and>
            isTranslating m = Some False"
    unfolding m by auto
  have b: "translating st ! i \<in> set (messages st) \<longrightarrow>
            (translating st ! i)\<lparr> translatedText := Some (text_msg (translating st ! i)),
                                   isTranslating := Some False \<rparr>
              \<in> set (messages (step usr room (TranslationSettled i has_api_key reply) st))"
    unfolding m by force
  have c: "error (step usr room (TranslationSettled i has_api_key reply) st) = error st"
    by (rule step_translation_error)
  have d: "map id_msg (messages (step usr room (TranslationSettled i has_api_key reply) st)) =
           map id_msg (messages st)"
    unfolding m by simp
  have e: "map text_msg (messages (step usr room (TranslationSettled i has_api_key reply) st)) =
           map text_msg (messages st)"
    unfolding m by simp
  from a b c d e show ?thesis by (intro conjI)
qed


theorem translation_failure_falls_back_witness:
  "0 < length (translating (run viewer lobby [LiveMessage hola] room_entered)) \<and>
   translating (run viewer lobby [LiveMessage hola] room_entered) ! 0 = newMessage viewer hola \<and>
   newMessage viewer hola \<in> set (messages (run viewer lobby [LiveMessage hola] room_entered)) \<and>
   (newMessage viewer hola)\<lparr> translatedText := Some (text_msg (newMessage viewer hola)),
                               isTranslating := Some False \<rparr>
     \<in> set (messages (step viewer lobby (TranslationSettled 0 False GatewayThrows)
           (run viewer lobby [LiveMessage hola] room_entered))) \<and>
   map translatedText (messages (step viewer lobby (TranslationSettled 0 False GatewayThrows)
           (run viewer lobby [LiveMessage hola] room_entered))) = [Some ''hola''] \<and>
   error (step viewer lobby (TranslationSettled 0 False GatewayThrows)
           (run viewer lobby [LiveMessage hola] room_entered)) = None"
proof -
  let ?st = "run viewer lobby [LiveMessage hola] room_entered"
  have h1: "0 < length (translating ?st)" by code_simp
  have h2: "\<not> False \<or> GatewayThrows = GatewayThrows" by simp
  have u: "translating ?st ! 0 = newMessage viewer hola" by code_simp
  have mem: "newMessage viewer hola \<in> set (messages ?st)" by code_simp
  have err: "error ?st = None" by code_simp
  have e: "map translatedText (messages (step viewer lobby (TranslationSettled 0 False GatewayThrows) ?st))
             = [Some ''hola'']"
    by code_simp
  note T = translation_failure_falls_back[OF h1 h2, of viewer lobby]
  have b: "(newMessage viewer hola)\<lparr> translatedText := Some (text_msg (newMessage viewer hola)),
                               isTranslating := Some False \<rparr>
     \<in> set (messages (step viewer lobby (TranslationSettled 0 False GatewayThrows) ?st))"
    using T[THEN conjunct2, THEN conjunct1, rule_format] mem unfolding u by blast
  have c: "error (step viewer lobby (TranslationSettled 0 False GatewayThrows) ?st) = None"
    using T[THEN conjunct2, THEN conjunct2, THEN conjunct1] err by (rule trans)
  show ?thesis
    by (intro conjI) (rule h1, rule u, rule mem, rule b, rule e, rule c)
qed

section \<open>Failure of a send\<close>

lemma step_submit:
  assumes "trim (inputText st) \<noteq> []"
  shows "messages (step usr room (SendSubmitted now1 now2) st) =
           messages st @ [optimisticMessage usr (inputText st) now1 now2]"
    and "sending (step usr room (SendSubmitted now1 now2) st) =
           sending st @ [(tempId_of now1, inputText st)]"
    and "inputText (step usr room (SendSubmitted now1 now2) st) = []"
  using assms by (simp_all add: sendMessage_submit_def Let_def)

lemma step_rejected:
  assumes "i < length (sending st)"
  shows "messages (step usr room (SendRejected i err) st) =
           filter (\<lambda>m. id_msg m \<noteq> fst (sending st ! i)) (messages st)"
    and "inputText (step usr room (SendRejected i err) st) = snd (sending st ! i)"
    and "error (step usr room (SendRejected i err) st) =
           Some (''Send Failed: '' @ message_or err ''Unknown error'')"
  using assms by (simp_all add: sendMessage_catch_def)

lemma id_optimisticMessage [simp]: "id_msg (optimisticMessage usr t now1 now2) = tempId_of now1"
  by (simp add: optimisticMessage_def)

text \<open>
  C8. A send is pending with the temporary id and the text it captured, and its persistence
  fails. Afterwards the list is the previous list without the messages of that temporary
  id, so it does not contain the id; the draft is the text sent; the error state is set to
  a message for the user; the result is again a state of the session. A send submitted
  with a draft that is not blank appends the optimistic message and becomes pending with
  that draft; when its temporary id is new and it fails at once, the list and the draft
  are what they were before the send.
\<close>

theorem send_failure_rolls_back:
  "(i < length (sending st) \<longrightarrow>
      fst (sending st ! i) \<notin> id_msg ` set (messages (step usr room (SendRejected i err) st)) \<and>
      messages (step usr room (SendRejected i err) st) =
        filter (\<lambda>m. id_msg m \<noteq> fst (sending st ! i)) (messages st) \<and>
      inputText (step usr room (SendRejected i err) st) = snd (sending st ! i) \<and>
      error (step usr room (SendRejected i err) st) =
        Some (''Send Failed: '' @ message_or err ''Unknown error'')) \<and>
   (trim (inputText st) \<noteq> [] \<longrightarrow>
      messages (step usr room (SendSubmitted now1 now2) st) =
        messages st @ [optimisticMessage usr (inputText st) now1 now2] \<and>
      sending (step usr room (SendSubmitted now1 now2) st) =
        sending st @ [(tempId_of now1, inputText st)] \<and>
      (tempId_of now1 \<notin> id_msg ` set (messages st) \<longrightarrow>
         messages (step usr room (SendRejected (length (sending st)) err)
                    (step usr room (SendSubmitted now1 now2) st)) = messages st \<and>
         inputText (step usr room (SendRejected (length (sending st)) err)
                    (step usr room (SendSubmitted now1 now2) st)) = inputText st))"
proof (intro conjI impI)
  assume i: "i < length (sending st)"
  show "messages (step usr room (SendRejected i err) st) =
        filter (\<lambda>m. id_msg m \<noteq> fst (sending st ! i)) (messages st)"
    using i by (rule step_rejected(1))
  then show "fst (sending st ! i) \<notin> id_msg ` set (messages (step usr room (SendRejected i err) st))"
    by auto
  show "inputText (step usr room (SendRejected i err) st) = snd (sending st ! i)"
    using i by (rule step_rejected(2))
  show "error (step usr room (SendRejected i err) st) =
        Some (''Send Failed: '' @ message_or err ''Unknown error'')"
    using i by (rule step_rejected(3))
next
  assume d: "trim (inputText st) \<noteq> []"
  let ?st = "step usr room (SendSubmitted now1 now2) st"
  show m: "messages ?st = messages st @ [optimisticMessage usr (inputText st) now1 now2]"
    using d by (rule step_submit(1))
  show s: "sending ?st = sending st @ [(tempId_of now1, inputText st)]"
    using d by (rule step_submit(2))
  assume f: "tempId_of now1 \<notin> id_msg ` set (messages st)"
  have l: "length (sending st) < length (sending ?st)" unfolding s by simp
  have n: "sending ?st ! length (sending st) = (tempId_of now1, inputText st)"
    unfolding s by simp
  have "filter (\<lambda>m. id_msg m \<noteq> tempId_of now1) (messages st) = messages st"
    using f by (force simp: filter_id_conv)
  then show "messages (step usr room (SendRejected (length (sending st)) err) ?st) = messages st"
    by (simp add: step_rejected(1)[OF l] n m del: step.simps)
  show "inputText (step usr room (SendRejected (length (sending st)) err) ?st) = inputText st"
    by (simp add: step_rejected(2)[OF l] n del: step.simps)
qed

theorem send_failure_rolls_back_witness:
  "0 < length (sending (run viewer lobby
      [LiveMessage adios, InputTyped ''hi'', SendSubmitted 100 100] room_entered)) \<and>
   sending (run viewer lobby
      [LiveMessage adios, InputTyped ''hi'', SendSubmitted 100 100] room_entered) ! 0
     = (''temp-100'', ''hi'') \<and>
   map id_msg (messages (run viewer lobby
      [LiveMessage adios, InputTyped ''hi'', SendSubmitted 100 100] room_entered))
     = [''2'', ''temp-100''] \<and>
   map id_msg (messages (step viewer lobby (SendRejected 0 (BackendError (Some ''WriteRejected'')))
      (run viewer lobby [LiveMessage adios, InputTyped ''hi'', SendSubmitted 100 100] room_entered)))
     = [''2''] \<and>
   inputText (step viewer lobby (SendRejected 0 (BackendError (Some ''WriteRejected'')))
      (run viewer lobby [LiveMessage adios, InputTyped ''hi'', SendSubmitted 100 100] room_entered))
     = ''hi'' \<and>
   error (step viewer lobby (SendRejected 0 (BackendError (Some ''WriteRejected'')))
      (run viewer lobby [LiveMessage adios, InputTyped ''hi'', SendSubmitted 100 100] room_entered))
     = Some ''Send Failed: WriteRejected'' \<and>
   trim (inputText (run viewer lobby [LiveMessage adios, InputTyped ''hi''] room_entered)) \<noteq> [] \<and>
   tempId_of 100 \<notin> id_msg ` set (messages (run viewer lobby
      [LiveMessage adios, InputTyped ''hi''] room_entered)) \<and>
   messages (step viewer lobby
      (SendRejected (length (sending (run viewer lobby
         [LiveMessage adios, InputTyped ''hi''] room_entered))) (BackendError (Some ''WriteRejected'')))
      (step viewer lobby (SendSubmitted 100 100)
         (run viewer lobby [LiveMessage adios, InputTyped ''hi''] room_entered)))
     = messages (run viewer lobby [LiveMessage adios, InputTyped ''hi''] room_entered)"
proof -
  let ?st0 = "run viewer lobby [LiveMessage adios, InputTyped ''hi''] room_entered"
  have g1: "trim (inputText ?st0) \<noteq> []" by code_simp
  have g2: "tempId_of 100 \<notin> id_msg ` set (messages ?st0)" by code_simp
  note U = send_failure_rolls_back[of _ ?st0 viewer lobby "BackendError (Some ''WriteRejected'')" 100 100,
      THEN conjunct2, rule_format, OF g1]
  have g3: "messages (step viewer lobby
      (SendRejected (length (sending ?st0)) (BackendError (Some ''WriteRejected'')))
      (step viewer lobby (SendSubmitted 100 100) ?st0)) = messages ?st0"
    using U[THEN conjunct2, THEN conjunct2, rule_format, OF g2] by (rule conjunct1)
  let ?st = "run viewer lobby [LiveMessage adios, InputTyped ''hi'', SendSubmitted 100 100] room_entered"
  let ?err = "BackendError (Some ''WriteRejected'')"
  have h: "0 < length (sending ?st)" by code_simp
  have p: "sending ?st ! 0 = (''temp-100'', ''hi'')" by code_simp
  have e0: "map id_msg (messages ?st) = [''2'', ''temp-100'']" by code_simp
  have e1: "map id_msg (messages (step viewer lobby (SendRejected 0 ?err) ?st)) = [''2'']"
    by code_simp
  have mo: "''Send Failed: '' @ message_or ?err ''Unknown error'' = ''Send Failed: WriteRejected''"
    by code_simp
  note T = send_failure_rolls_back[of 0 ?st viewer lobby ?err,
      THEN conjunct1, rule_format, OF h]
  have i: "inputText (step viewer lobby (SendRejected 0 ?err) ?st) = ''hi''"
    using T[THEN conjunct2, THEN conjunct2, THEN conjunct1] by (simp add: p)
  have r: "error (step viewer lobby (SendRejected 0 ?err) ?st) = Some ''Send Failed: WriteRejected''"
    using T[THEN conjunct2, THEN conjunct2, THEN conjunct2] by (simp only: mo)
  show ?thesis
    by (intro conjI) (rule h, rule p, rule e0, rule e1, rule i, rule r, rule g1, rule g2, rule g3)
qed

end
